theory Spec2Isabelle
  imports Main
begin

section \<open>Data model of \<open>main.py\<close>\<close>

text \<open>
  Coordinates are Python integers, a direction is the one-character string stored in
  the board (\<open>'N'\<close>, \<open>'S'\<close>, \<open>'E'\<close>, \<open>'W'\<close> in a well-formed game), and the board is
  the dictionary \<open>(x, y): (direction, alive)\<close> of \<open>process_turn\<close>'s docstring.
\<close>

type_synonym location = "int \<times> int"

type_synonym board = "location \<rightharpoonup> (char \<times> bool)"

text \<open>\<open>Ship = namedtuple('Ship', ['x', 'y', 'direction', 'alive'])\<close>\<close>

datatype Ship = Ship int int char bool

text \<open>
  \<open>MovementTurn(ship_x, ship_y, actions)\<close> and \<open>ShootingTurn(target_x, target_y)\<close>;
  \<open>OtherTurn\<close> stands for any object that is an instance of neither.
\<close>

datatype turn = MovementTurn int int string | ShootingTurn int int | OtherTurn

text \<open>
  The exceptions. The \<open>InvalidTurn\<close> subclasses carry the arguments they are raised
  with. \<open>KeyError\<close>, \<open>AssertionError\<close> and \<open>AttributeError\<close> are the built-in
  exceptions that a failed dictionary subscript, the \<open>assert\<close> in the action loop and
  \<open>match.group\<close> on a failed search raise.
\<close>

datatype error =
    InvalidTurnType
  | MoveOutsideBoard int int int
  | MovingSunkShip int int int
  | NoShipAtLocation int int int
  | ShipAtMoveTarget int int int
  | KeyError
  | AssertionError
  | AttributeError

text \<open>The action (result) records of a turn.\<close>

datatype action =
    MovedShip int int char int int char
  | ShotNoTarget int int
  | SunkAliveShip int int
  | SunkDeadShip int int

section \<open>Direction tables\<close>

text \<open>A dictionary literal is an association list; \<open>d[k]\<close> raises \<open>KeyError\<close> on a missing key.\<close>

definition subscript :: "('k \<times> 'v) list \<Rightarrow> 'k \<Rightarrow> error + 'v" where
  "subscript d k = (case map_of d k of None \<Rightarrow> Inl KeyError | Some v \<Rightarrow> Inr v)"

definition DIRECTION_TRANSITIONS :: "(char \<times> (char \<times> char) list) list" where
  "DIRECTION_TRANSITIONS =
    [(CHR ''N'', [(CHR ''L'', CHR ''W''), (CHR ''R'', CHR ''E'')]),
     (CHR ''S'', [(CHR ''L'', CHR ''E''), (CHR ''R'', CHR ''W'')]),
     (CHR ''E'', [(CHR ''L'', CHR ''N''), (CHR ''R'', CHR ''S'')]),
     (CHR ''W'', [(CHR ''L'', CHR ''S''), (CHR ''R'', CHR ''N'')])]"

definition DIRECTION_DELTAS :: "(char \<times> (int \<times> int)) list" where
  "DIRECTION_DELTAS =
    [(CHR ''N'', ( 0,  1)),
     (CHR ''S'', ( 0, -1)),
     (CHR ''W'', (-1,  0)),
     (CHR ''E'', ( 1,  0))]"

text \<open>\<open>DIRECTION_TRANSITIONS[direction][action]\<close>, the expression of the action loop.\<close>

definition rotate_dir :: "char \<Rightarrow> char \<Rightarrow> error + char" where
  "rotate_dir direction action =
     (case subscript DIRECTION_TRANSITIONS direction of
        Inl e \<Rightarrow> Inl e
      | Inr row \<Rightarrow> subscript row action)"

text \<open>A further rotation of a rotation's result; an earlier \<open>KeyError\<close> stays.\<close>

fun then_rotate :: "error + char \<Rightarrow> char \<Rightarrow> error + char" where
  "then_rotate (Inl e) action = Inl e"
| "then_rotate (Inr direction) action = rotate_dir direction action"

text \<open>The four headings of the data model (the keys of both tables).\<close>

definition headings :: "char set" where
  "headings = {CHR ''N'', CHR ''S'', CHR ''E'', CHR ''W''}"

section \<open>Turn engine\<close>

text \<open>
  The loop \<open>for action in turn.actions\<close> of \<open>process_move\<close> over the local variables
  \<open>location\<close> and \<open>direction\<close>. A subscript of a table with a direction that is not
  one of its keys raises \<open>KeyError\<close>; an action other than \<open>L\<close>, \<open>R\<close> and \<open>M\<close> fails
  the \<open>assert\<close>.
\<close>

fun apply_actions :: "string \<Rightarrow> location \<Rightarrow> char \<Rightarrow> error + (location \<times> char)" where
  "apply_actions [] location direction = Inr (location, direction)"
| "apply_actions (action # actions) location direction =
     (if action \<in> {CHR ''L'', CHR ''R''} then
        (case rotate_dir direction action of
           Inl e \<Rightarrow> Inl e
         | Inr direction' \<Rightarrow> apply_actions actions location direction')
      else if action \<noteq> CHR ''M'' then Inl AssertionError
      else
        (case subscript DIRECTION_DELTAS direction of
           Inl e \<Rightarrow> Inl e
         | Inr delta \<Rightarrow>
             apply_actions actions
               (fst location + fst delta, snd location + snd delta) direction))"

text \<open>
  \<open>process_move\<close> mutates the board in place, so the model returns the board as it is
  when the function returns or raises, next to the action or the exception. A stored
  ship is a non-empty tuple, so \<open>not ship\<close> and \<open>board.get(location)\<close> test for a
  missing key only.
\<close>

definition process_move ::
  "int \<Rightarrow> board \<Rightarrow> int \<Rightarrow> int \<Rightarrow> int \<Rightarrow> string \<Rightarrow> board \<times> (error + action)" where
  "process_move board_size board turn_number ship_x ship_y actions =
     (let location = (ship_x, ship_y) in
      case board location of
        None \<Rightarrow> (board, Inl (NoShipAtLocation turn_number ship_x ship_y))
      | Some ship \<Rightarrow>
          if \<not> snd ship then (board, Inl (MovingSunkShip turn_number ship_x ship_y))
          else
            let board1 = board(location := None);
                start_direction = fst ship
            in case apply_actions actions location start_direction of
                 Inl e \<Rightarrow> (board1, Inl e)
               | Inr (loc, direction) \<Rightarrow>
                   if fst loc < 0 \<or> snd loc < 0 \<or> fst loc \<ge> board_size \<or> snd loc \<ge> board_size
                   then (board1, Inl (MoveOutsideBoard turn_number (fst loc) (snd loc)))
                   else if board1 loc \<noteq> None
                   then (board1, Inl (ShipAtMoveTarget turn_number (fst loc) (snd loc)))
                   else (board1(loc \<mapsto> (direction, True)),
                         Inr (MovedShip ship_x ship_y start_direction
                                (fst loc) (snd loc) direction)))"

definition process_shoot ::
  "int \<Rightarrow> board \<Rightarrow> int \<Rightarrow> int \<Rightarrow> int \<Rightarrow> board \<times> (error + action)" where
  "process_shoot board_size board turn_number target_x target_y =
     (case board (target_x, target_y) of
        None \<Rightarrow> (board, Inr (ShotNoTarget target_x target_y))
      | Some ship \<Rightarrow>
          let was_alive = snd ship;
              board1 = board((target_x, target_y) \<mapsto> (fst ship, False))
          in if was_alive then (board1, Inr (SunkAliveShip target_x target_y))
             else (board1, Inr (SunkDeadShip target_x target_y)))"

fun process_turn :: "int \<Rightarrow> board \<Rightarrow> int \<Rightarrow> turn \<Rightarrow> board \<times> (error + action)" where
  "process_turn board_size board turn_number (MovementTurn ship_x ship_y actions) =
     process_move board_size board turn_number ship_x ship_y actions"
| "process_turn board_size board turn_number (ShootingTurn target_x target_y) =
     process_shoot board_size board turn_number target_x target_y"
| "process_turn board_size board turn_number OtherTurn = (board, Inl InvalidTurnType)"

section \<open>Run driver\<close>

text \<open>
  The dictionary comprehension of \<open>run\<close>: ships are entered in list order, a later
  ship at a coordinate replacing an earlier one.
\<close>

fun make_board :: "board \<Rightarrow> Ship list \<Rightarrow> board" where
  "make_board board [] = board"
| "make_board board (Ship x y direction alive # ships) =
     make_board (board((x, y) \<mapsto> (direction, alive))) ships"

text \<open>
  The loop over \<open>enumerate(turns)\<close>. The board is local to \<open>run\<close>, so an exception
  leaves the caller with the exception and with the action list as filled so far.
\<close>

fun run_turns ::
  "int \<Rightarrow> board \<Rightarrow> int \<Rightarrow> turn list \<Rightarrow> action list option
     \<Rightarrow> action list option \<times> (error + board)" where
  "run_turns board_size board turn_number [] actionList = (actionList, Inr board)"
| "run_turns board_size board turn_number (turn # turns) actionList =
     (case process_turn board_size board turn_number turn of
        (board1, Inl e) \<Rightarrow> (actionList, Inl e)
      | (board1, Inr action) \<Rightarrow>
          run_turns board_size board1 (turn_number + 1) turns
            (map_option (\<lambda>l. l @ [action]) actionList))"

definition run ::
  "int \<Rightarrow> Ship list \<Rightarrow> turn list \<Rightarrow> action list option
     \<Rightarrow> action list option \<times> (error + board)" where
  "run board_size initial_ships turns actionList =
     run_turns board_size (make_board Map.empty initial_ships) 0 turns actionList"

section \<open>Turn parser\<close>

text \<open>
  A line is a Python \<open>str\<close>; the model covers the code points below 256. On these,
  \<open>str.strip()\<close> and the pattern's \<open>\s\<close> remove and match the same characters,
  and \<open>\d\<close> matches the ten ASCII digits, the code points 48 to 57.
\<close>

definition isspace :: "char \<Rightarrow> bool" where
  "isspace c \<longleftrightarrow>
     c \<in> {CHR 0x09, CHR 0x0A, CHR 0x0B, CHR 0x0C, CHR 0x0D,
          CHR 0x1C, CHR 0x1D, CHR 0x1E, CHR 0x1F, CHR 0x20, CHR 0x85, CHR 0xA0}"

definition isdigit :: "char \<Rightarrow> bool" where
  "isdigit c \<longleftrightarrow> 48 \<le> (of_char c :: nat) \<and> (of_char c :: nat) \<le> 57"

text \<open>The character class \<open>[LRM]\<close>.\<close>

definition isaction :: "char \<Rightarrow> bool" where
  "isaction c \<longleftrightarrow> c \<in> {CHR ''L'', CHR ''R'', CHR ''M''}"

definition strip :: "string \<Rightarrow> string" where
  "strip s = rev (dropWhile isspace (rev (dropWhile isspace s)))"

text \<open>
  \<open>int(s)\<close> on a non-empty run of ASCII digits: the decimal value, leading zeros
  accepted. The interpreter's configurable limit on the length of a digit string it
  converts is not modelled.
\<close>

definition digit_value :: "char \<Rightarrow> int" where
  "digit_value c = int (of_char c) - 48"

definition int_of_digits :: "string \<Rightarrow> int" where
  "int_of_digits s = foldl (\<lambda>n c. 10 * n + digit_value c) 0 s"

text \<open>
  An attempt to match \<open>TURN_REGEX\<close> with the match starting at the head of the
  string; the result is the three named groups \<open>x_coord\<close>, \<open>y_coord\<close> and
  \<open>actions\<close>. Every quantifier of the pattern is greedy and is followed by a
  character (or class) disjoint from the class it repeats, so giving characters back
  never turns a failure into a match: each \<open>\s*\<close>, \<open>\d+\<close> and \<open>[LRM]*\<close> takes
  the longest run there is.
\<close>

definition match_here :: "string \<Rightarrow> (string \<times> string \<times> string) option" where
  "match_here s =
     (case s of
        [] \<Rightarrow> None
      | c # s1 \<Rightarrow>
          if c \<noteq> CHR ''('' then None
          else
            let s2 = dropWhile isspace s1;
                x_coord = takeWhile isdigit s2;
                s3 = dropWhile isspace (dropWhile isdigit s2)
            in if x_coord = [] then None
               else
                 (case s3 of
                    [] \<Rightarrow> None
                  | c3 # s4 \<Rightarrow>
                      if c3 \<noteq> CHR '','' then None
                      else
                        let s5 = dropWhile isspace s4;
                            y_coord = takeWhile isdigit s5;
                            s6 = dropWhile isspace (dropWhile isdigit s5)
                        in if y_coord = [] then None
                           else
                             (case s6 of
                                [] \<Rightarrow> None
                              | c6 # s7 \<Rightarrow>
                                  if c6 \<noteq> CHR '')'' then None
                                  else
                                    Some (x_coord, y_coord,
                                          takeWhile isaction (dropWhile isspace s7)))))"

text \<open>
  \<open>TURN_REGEX.search\<close>: the match at the leftmost position where one exists, or
  \<open>None\<close>.
\<close>

fun search :: "string \<Rightarrow> (string \<times> string \<times> string) option" where
  "search [] = match_here []"
| "search (c # s) =
     (case match_here (c # s) of
        Some m \<Rightarrow> Some m
      | None \<Rightarrow> search s)"

text \<open>
  \<open>make_turn_from_line\<close>: \<open>match.group\<close> on a failed search is an attribute access
  on \<open>None\<close>; an empty \<open>actions\<close> string is falsy.
\<close>

definition make_turn_from_line :: "string \<Rightarrow> error + turn" where
  "make_turn_from_line line =
     (case search (strip line) of
        None \<Rightarrow> Inl AttributeError
      | Some (xs, ys, actions) \<Rightarrow>
          let x_coord = int_of_digits xs;
              y_coord = int_of_digits ys
          in if actions \<noteq> [] then Inr (MovementTurn x_coord y_coord actions)
             else Inr (ShootingTurn x_coord y_coord))"

text \<open>The ships of an initial list that sit at a coordinate, and the board entry of a ship.\<close>

fun ship_at :: "location \<Rightarrow> Ship \<Rightarrow> bool" where
  "ship_at loc (Ship x y direction alive) \<longleftrightarrow> (x, y) = loc"

fun ship_state :: "Ship \<Rightarrow> char \<times> bool" where
  "ship_state (Ship x y direction alive) = (direction, alive)"

section \<open>The specification's turn grammar\<close>

text \<open>
  The grammar of a turn line as the specification words it: \<open>( X , Y )\<close> with \<open>X\<close> and
  \<open>Y\<close> non-empty runs of decimal digits and any amount of whitespace around the
  open parenthesis, around the comma and before the close parenthesis, followed by
  zero or more letters of \<open>L\<close>, \<open>R\<close>, \<open>M\<close>. \<open>coordinate_pair\<close> is the parenthesised part,
  \<open>turn_grammar\<close> holds of a whole line of the grammar, and
  \<open>contains_coordinate_pair\<close> of a text with a parenthesised part somewhere inside.
  \<open>grammar_char\<close> holds of the characters that can occur in a line of the grammar.
\<close>

definition whitespace :: "string \<Rightarrow> bool" where
  "whitespace ws \<longleftrightarrow> list_all isspace ws"

definition number :: "string \<Rightarrow> bool" where
  "number ds \<longleftrightarrow> ds \<noteq> [] \<and> list_all isdigit ds"

definition coordinate_pair ::
  "string \<Rightarrow> string \<Rightarrow> string \<Rightarrow> string \<Rightarrow> string \<Rightarrow> string \<Rightarrow> string" where
  "coordinate_pair ws1 X ws2 ws3 Y ws4 =
     ''('' @ ws1 @ X @ ws2 @ '','' @ ws3 @ Y @ ws4 @ '')''"

definition contains_coordinate_pair :: "string \<Rightarrow> bool" where
  "contains_coordinate_pair s \<longleftrightarrow>
     (\<exists>pre ws1 X ws2 ws3 Y ws4 rest.
        whitespace ws1 \<and> number X \<and> whitespace ws2 \<and>
        whitespace ws3 \<and> number Y \<and> whitespace ws4 \<and>
        s = pre @ coordinate_pair ws1 X ws2 ws3 Y ws4 @ rest)"

definition turn_grammar :: "string \<Rightarrow> bool" where
  "turn_grammar line \<longleftrightarrow>
     (\<exists>ws0 ws1 X ws2 ws3 Y ws4 ws5 A ws6.
        whitespace ws0 \<and> whitespace ws1 \<and> number X \<and> whitespace ws2 \<and>
        whitespace ws3 \<and> number Y \<and> whitespace ws4 \<and>
        whitespace ws5 \<and> list_all isaction A \<and> whitespace ws6 \<and>
        line = ws0 @ coordinate_pair ws1 X ws2 ws3 Y ws4 @ ws5 @ A @ ws6)"

definition grammar_char :: "char \<Rightarrow> bool" where
  "grammar_char c \<longleftrightarrow>
     isspace c \<or> isdigit c \<or> isaction c \<or> c = CHR ''('' \<or> c = CHR '','' \<or> c = CHR '')''"

text \<open>
  A text that begins with a parenthesised coordinate pair, and the action letters
  read after a pair: the longest run of \<open>L\<close>, \<open>R\<close>, \<open>M\<close> after any whitespace.
\<close>

definition starts_with_coordinate_pair :: "string \<Rightarrow> bool" where
  "starts_with_coordinate_pair s \<longleftrightarrow>
     (\<exists>ws1 X ws2 ws3 Y ws4 rest.
        whitespace ws1 \<and> number X \<and> whitespace ws2 \<and>
        whitespace ws3 \<and> number Y \<and> whitespace ws4 \<and>
        s = coordinate_pair ws1 X ws2 ws3 Y ws4 @ rest)"

definition action_letters :: "string \<Rightarrow> string" where
  "action_letters rest = takeWhile isaction (dropWhile isspace rest)"

section \<open>The specification's direction model and board invariant\<close>

text \<open>
  The rotation and movement rules as the specification words them: a left turn takes
  N to W, W to S, S to E and E to N, a right turn is the inverse; going ahead adds
  (0,1) for N, (0,-1) for S, (1,0) for E and (-1,0) for W. They are stated on the
  four headings; the engine's tables are compared with them below.
\<close>

definition spec_rotate :: "char \<Rightarrow> char \<Rightarrow> char" where
  "spec_rotate h op =
     (if op = CHR ''L'' then
        (if h = CHR ''N'' then CHR ''W'' else if h = CHR ''W'' then CHR ''S''
         else if h = CHR ''S'' then CHR ''E'' else CHR ''N'')
      else
        (if h = CHR ''W'' then CHR ''N'' else if h = CHR ''S'' then CHR ''W''
         else if h = CHR ''E'' then CHR ''S'' else CHR ''E''))"

definition spec_delta :: "char \<Rightarrow> int \<times> int" where
  "spec_delta h =
     (if h = CHR ''N'' then (0, 1) else if h = CHR ''S'' then (0, -1)
      else if h = CHR ''E'' then (1, 0) else (-1, 0))"

text \<open>One step of the fold over (current coordinate, current heading).\<close>

fun spec_step :: "location \<times> char \<Rightarrow> char \<Rightarrow> location \<times> char" where
  "spec_step ((px, py), h) op =
     (if op = CHR ''M'' then ((px + fst (spec_delta h), py + snd (spec_delta h)), h)
      else ((px, py), spec_rotate h op))"

text \<open>The heading half a turn away.\<close>

definition opposite :: "char \<Rightarrow> char" where
  "opposite h =
     (if h = CHR ''N'' then CHR ''S'' else if h = CHR ''S'' then CHR ''N''
      else if h = CHR ''E'' then CHR ''W'' else CHR ''E'')"

definition in_bounds :: "int \<Rightarrow> location \<Rightarrow> bool" where
  "in_bounds board_size loc \<longleftrightarrow>
     0 \<le> fst loc \<and> fst loc < board_size \<and> 0 \<le> snd loc \<and> snd loc < board_size"

text \<open>
  The board invariant: every occupied coordinate is within bounds. That a coordinate
  holds at most one ship is built into the dictionary, which has one value per key.
\<close>

definition board_invariant :: "int \<Rightarrow> board \<Rightarrow> bool" where
  "board_invariant board_size board \<longleftrightarrow> (\<forall>loc \<in> dom board. in_bounds board_size loc)"

section \<open>Rotation algebra\<close>

lemma rotate_table:
  "rotate_dir (CHR ''N'') (CHR ''L'') = Inr (CHR ''W'')"
  "rotate_dir (CHR ''N'') (CHR ''R'') = Inr (CHR ''E'')"
  "rotate_dir (CHR ''S'') (CHR ''L'') = Inr (CHR ''E'')"
  "rotate_dir (CHR ''S'') (CHR ''R'') = Inr (CHR ''W'')"
  "rotate_dir (CHR ''E'') (CHR ''L'') = Inr (CHR ''N'')"
  "rotate_dir (CHR ''E'') (CHR ''R'') = Inr (CHR ''S'')"
  "rotate_dir (CHR ''W'') (CHR ''L'') = Inr (CHR ''S'')"
  "rotate_dir (CHR ''W'') (CHR ''R'') = Inr (CHR ''N'')"
  by (simp_all add: rotate_dir_def subscript_def DIRECTION_TRANSITIONS_def)

text \<open>
  Claim C8. The rotation table has an entry, itself a heading, for each of the four
  headings and both of \<open>L\<close> and \<open>R\<close>; for every heading \<open>H\<close>, a left turn followed by a
  right turn gives \<open>H\<close> back, and so does a right turn followed by a left turn; four
  left turns give \<open>H\<close> back, and so do four right turns.
\<close>

theorem rotation_algebra:
  "\<forall>H \<in> headings.
     (\<forall>op \<in> {CHR ''L'', CHR ''R''}. \<exists>H' \<in> headings. rotate_dir H op = Inr H') \<and>
     then_rotate (rotate_dir H (CHR ''L'')) (CHR ''R'') = Inr H \<and>
     then_rotate (rotate_dir H (CHR ''R'')) (CHR ''L'') = Inr H \<and>
     then_rotate (then_rotate (then_rotate (rotate_dir H (CHR ''L'')) (CHR ''L'')) (CHR ''L'')) (CHR ''L'') = Inr H \<and>
     then_rotate (then_rotate (then_rotate (rotate_dir H (CHR ''R'')) (CHR ''R'')) (CHR ''R'')) (CHR ''R'') = Inr H"
  by (simp add: headings_def rotate_table)

theorem rotation_algebra_witness:
  "CHR ''N'' \<in> headings \<and>
   rotate_dir (CHR ''N'') (CHR ''L'') = Inr (CHR ''W'') \<and>
   then_rotate (rotate_dir (CHR ''N'') (CHR ''L'')) (CHR ''R'') = Inr (CHR ''N'') \<and>
   then_rotate (then_rotate (then_rotate (rotate_dir (CHR ''N'') (CHR ''L'')) (CHR ''L'')) (CHR ''L'')) (CHR ''L'') = Inr (CHR ''N'')"
proof -
  have h: "CHR ''N'' \<in> headings" by (simp add: headings_def)
  from rotation_algebra h
  have "then_rotate (rotate_dir (CHR ''N'') (CHR ''L'')) (CHR ''R'') = Inr (CHR ''N'') \<and>
        then_rotate (then_rotate (then_rotate (rotate_dir (CHR ''N'') (CHR ''L'')) (CHR ''L'')) (CHR ''L'')) (CHR ''L'') = Inr (CHR ''N'')"
    by blast
  with h show ?thesis by (simp add: rotate_table)
qed

section \<open>The action loop is the specification's fold\<close>

lemma rotate_dir_spec:
  "H \<in> headings \<Longrightarrow> op \<in> {CHR ''L'', CHR ''R''} \<Longrightarrow>
     rotate_dir H op = Inr (spec_rotate H op) \<and> spec_rotate H op \<in> headings"
  by (auto simp: headings_def rotate_table spec_rotate_def)

lemma deltas_spec:
  "H \<in> headings \<Longrightarrow> subscript DIRECTION_DELTAS H = Inr (spec_delta H)"
  by (auto simp: headings_def subscript_def DIRECTION_DELTAS_def spec_delta_def)

lemma apply_actions_fold:
  "H \<in> headings \<Longrightarrow> set actions \<subseteq> {CHR ''L'', CHR ''R'', CHR ''M''} \<Longrightarrow>
     apply_actions actions loc H = Inr (foldl spec_step (loc, H) actions) \<and>
     snd (foldl spec_step (loc, H) actions) \<in> headings"
proof (induction actions arbitrary: loc H)
  case Nil
  then show ?case by simp
next
  case (Cons a actions)
  obtain px py where loc: "loc = (px, py)" by (cases loc)
  from Cons.prems have rest: "set actions \<subseteq> {CHR ''L'', CHR ''R'', CHR ''M''}" by simp
  show ?case
  proof (cases "a = CHR ''M''")
    case True
    with Cons.prems(1) Cons.IH [OF Cons.prems(1) rest] show ?thesis
      by (simp add: loc deltas_spec)
  next
    case False
    with Cons.prems(2) have op: "a \<in> {CHR ''L'', CHR ''R''}" by auto
    from rotate_dir_spec [OF Cons.prems(1) op]
    have r: "rotate_dir H a = Inr (spec_rotate H a)" and h: "spec_rotate H a \<in> headings"
      by simp_all
    from Cons.IH [OF h rest] False op r show ?thesis
      by (simp add: loc)
  qed
qed

section \<open>Movement\<close>

lemma process_move_alive:
  assumes ship: "board (x, y) = Some (H, True)"
    and H: "H \<in> headings"
    and acts: "set actions \<subseteq> {CHR ''L'', CHR ''R'', CHR ''M''}"
    and fold: "foldl spec_step ((x, y), H) actions = (loc, fH)"
  shows "process_move board_size board t x y actions =
     (if \<not> in_bounds board_size loc
      then (board((x, y) := None), Inl (MoveOutsideBoard t (fst loc) (snd loc)))
      else if loc \<noteq> (x, y) \<and> board loc \<noteq> None
      then (board((x, y) := None), Inl (ShipAtMoveTarget t (fst loc) (snd loc)))
      else ((board((x, y) := None))(loc \<mapsto> (fH, True)),
            Inr (MovedShip x y H (fst loc) (snd loc) fH)))"
proof -
  from apply_actions_fold [OF H acts, of "(x, y)"] fold
  have "apply_actions actions (x, y) H = Inr (loc, fH)" by simp
  with ship show ?thesis
    by (auto simp: process_move_def in_bounds_def)
qed

text \<open>
  Claim C1. For every board, board size and movement turn at \<open>(x, y)\<close> where an alive
  ship with heading \<open>H\<close> stands, the actions being letters of \<open>L\<close>, \<open>R\<close>, \<open>M\<close>:
  let \<open>((fx, fy), fH)\<close> be the left-to-right fold of the specification's step over the
  actions from \<open>((x, y), H)\<close>, with no bounds check in between. If \<open>(fx, fy)\<close> is in
  bounds and no other ship stands there, the turn returns
  \<open>MovedShip(x, y, H, fx, fy, fH)\<close> and leaves the original board with the entry at
  \<open>(x, y)\<close> removed and \<open>(fx, fy)\<close> mapped to \<open>(fH, alive)\<close>, every other entry
  unchanged. From (5,5) heading N the actions \<open>LLMMMRMMLRM\<close> end at (2,2) heading W.
\<close>

theorem move_success:
  "(\<forall>board board_size t x y H actions fx fy fH.
      board (x, y) = Some (H, True) \<and> H \<in> headings \<and>
      set actions \<subseteq> {CHR ''L'', CHR ''R'', CHR ''M''} \<and>
      foldl spec_step ((x, y), H) actions = ((fx, fy), fH) \<and>
      in_bounds board_size (fx, fy) \<and>
      \<not> ((fx, fy) \<noteq> (x, y) \<and> board (fx, fy) \<noteq> None)
      \<longrightarrow>
      process_turn board_size board t (MovementTurn x y actions) =
        ((board((x, y) := None))((fx, fy) \<mapsto> (fH, True)),
         Inr (MovedShip x y H fx fy fH))) \<and>
   foldl spec_step ((5, 5), CHR ''N'') ''LLMMMRMMLRM'' = ((2, 2), CHR ''W'') \<and>
   process_turn 10 [(5, 5) \<mapsto> (CHR ''N'', True)] 0 (MovementTurn 5 5 ''LLMMMRMMLRM'') =
     ([(2, 2) \<mapsto> (CHR ''W'', True)], Inr (MovedShip 5 5 (CHR ''N'') 2 2 (CHR ''W'')))"
proof (intro conjI allI impI)
  fix board :: board and board_size t x y H actions fx fy fH
  assume a: "board (x, y) = Some (H, True) \<and> H \<in> headings \<and>
      set actions \<subseteq> {CHR ''L'', CHR ''R'', CHR ''M''} \<and>
      foldl spec_step ((x, y), H) actions = ((fx, fy), fH) \<and>
      in_bounds board_size (fx, fy) \<and>
      \<not> ((fx, fy) \<noteq> (x, y) \<and> board (fx, fy) \<noteq> None)"
  then have "process_move board_size board t x y actions =
        ((board((x, y) := None))((fx, fy) \<mapsto> (fH, True)),
         Inr (MovedShip x y H fx fy fH))"
    using process_move_alive [of board x y H actions "(fx, fy)" fH board_size t]
    by (simp del: fun_upd_apply)
  then show "process_turn board_size board t (MovementTurn x y actions) =
        ((board((x, y) := None))((fx, fy) \<mapsto> (fH, True)),
         Inr (MovedShip x y H fx fy fH))" by simp
next
  show f: "foldl spec_step ((5, 5), CHR ''N'') ''LLMMMRMMLRM'' = ((2, 2), CHR ''W'')"
    by (simp add: spec_rotate_def spec_delta_def)
  show "process_turn 10 [(5, 5) \<mapsto> (CHR ''N'', True)] 0 (MovementTurn 5 5 ''LLMMMRMMLRM'') =
     ([(2, 2) \<mapsto> (CHR ''W'', True)], Inr (MovedShip 5 5 (CHR ''N'') 2 2 (CHR ''W'')))"
    by (simp add: process_move_def rotate_table subscript_def DIRECTION_DELTAS_def)
qed

theorem move_success_witness:
  "process_turn 10 [(5, 5) \<mapsto> (CHR ''N'', True), (7, 7) \<mapsto> (CHR ''E'', False)] 3
     (MovementTurn 5 5 ''MR'') =
   ([(5, 5) \<mapsto> (CHR ''N'', True), (7, 7) \<mapsto> (CHR ''E'', False)]
      ((5, 5) := None, (5, 6) \<mapsto> (CHR ''E'', True)),
    Inr (MovedShip 5 5 (CHR ''N'') 5 6 (CHR ''E'')))"
proof -
  let ?b = "[(5, 5) \<mapsto> (CHR ''N'', True), (7, 7) \<mapsto> (CHR ''E'', False)] :: board"
  have h: "?b (5, 5) = Some (CHR ''N'', True) \<and> CHR ''N'' \<in> headings \<and>
      set ''MR'' \<subseteq> {CHR ''L'', CHR ''R'', CHR ''M''} \<and>
      foldl spec_step ((5, 5), CHR ''N'') ''MR'' = ((5, 6), CHR ''E'') \<and>
      in_bounds 10 (5, 6) \<and>
      \<not> ((5, 6) \<noteq> (5 :: int, 5 :: int) \<and> ?b (5, 6) \<noteq> None)"
    by (simp add: headings_def spec_rotate_def spec_delta_def in_bounds_def)
  from move_success have
    "?b (5, 5) = Some (CHR ''N'', True) \<and> CHR ''N'' \<in> headings \<and>
      set ''MR'' \<subseteq> {CHR ''L'', CHR ''R'', CHR ''M''} \<and>
      foldl spec_step ((5, 5), CHR ''N'') ''MR'' = ((5, 6), CHR ''E'') \<and>
      in_bounds 10 (5, 6) \<and>
      \<not> ((5, 6) \<noteq> (5 :: int, 5 :: int) \<and> ?b (5, 6) \<noteq> None)
      \<longrightarrow>
      process_turn 10 ?b 3 (MovementTurn 5 5 ''MR'') =
        ((?b((5, 5) := None))((5, 6) \<mapsto> (CHR ''E'', True)),
         Inr (MovedShip 5 5 (CHR ''N'') 5 6 (CHR ''E'')))"
    by blast
  with h show ?thesis by blast
qed

text \<open>
  Claim C3. For a movement turn whose actions are letters of \<open>L\<close>, \<open>R\<close>, \<open>M\<close> (an
  alive ship at \<open>(x, y)\<close> having one of the four headings), the outcome is decided in
  this order: no ship at \<open>(x, y)\<close> raises \<open>NoShipAtLocation(t, x, y)\<close>; a ship that is
  not alive raises \<open>MovingSunkShip(t, x, y)\<close>; a folded final coordinate out of bounds
  on either axis raises \<open>MoveOutsideBoard(t, fx, fy)\<close>; a final coordinate occupied by
  another ship raises \<open>ShipAtMoveTarget(t, fx, fy)\<close>; otherwise the move succeeds.
\<close>

theorem move_failure_characterisation:
  assumes "set actions \<subseteq> {CHR ''L'', CHR ''R'', CHR ''M''}"
    and "\<forall>H. board (x, y) = Some (H, True) \<longrightarrow> H \<in> headings"
  shows "snd (process_turn board_size board t (MovementTurn x y actions)) =
     (case board (x, y) of
        None \<Rightarrow> Inl (NoShipAtLocation t x y)
      | Some (H, alive) \<Rightarrow>
          if \<not> alive then Inl (MovingSunkShip t x y)
          else
            (case foldl spec_step ((x, y), H) actions of
               ((fx, fy), fH) \<Rightarrow>
                 if \<not> in_bounds board_size (fx, fy) then Inl (MoveOutsideBoard t fx fy)
                 else if (fx, fy) \<noteq> (x, y) \<and> board (fx, fy) \<noteq> None
                 then Inl (ShipAtMoveTarget t fx fy)
                 else Inr (MovedShip x y H fx fy fH)))"
proof (cases "board (x, y)")
  case None
  then show ?thesis by (simp add: process_move_def)
next
  case (Some ship)
  obtain H alive where ship: "ship = (H, alive)" by (cases ship)
  show ?thesis
  proof (cases alive)
    case False
    with Some ship show ?thesis by (simp add: process_move_def)
  next
    case True
    with Some ship have b: "board (x, y) = Some (H, True)" by simp
    with assms(2) have H: "H \<in> headings" by blast
    obtain fx fy fH where f: "foldl spec_step ((x, y), H) actions = ((fx, fy), fH)"
      by (metis prod.exhaust)
    from process_move_alive [of board x y H actions "(fx, fy)" fH board_size t] b H assms(1) f
    show ?thesis by (simp del: fun_upd_apply)
  qed
qed

theorem move_failure_characterisation_witness:
  "set ''LMMMMM'' \<subseteq> {CHR ''L'', CHR ''R'', CHR ''M''} \<and>
   snd (process_turn 8 [(2, 2) \<mapsto> (CHR ''N'', True), (4, 5) \<mapsto> (CHR ''E'', False)] 0
          (MovementTurn 2 2 ''LMMMMM'')) = Inl (MoveOutsideBoard 0 (- 3) 2)"
proof -
  let ?b = "[(2, 2) \<mapsto> (CHR ''N'', True), (4, 5) \<mapsto> (CHR ''E'', False)] :: board"
  have a: "set ''LMMMMM'' \<subseteq> {CHR ''L'', CHR ''R'', CHR ''M''}" by simp
  have h: "\<forall>H. ?b (2, 2) = Some (H, True) \<longrightarrow> H \<in> headings"
    by (simp add: headings_def)
  from move_failure_characterisation [of "''LMMMMM''" ?b 2 2 8 0] a h show ?thesis
    by (simp add: spec_rotate_def spec_delta_def in_bounds_def)
qed

text \<open>
  Claim C5. When a movement turn raises \<open>MoveOutsideBoard\<close> or \<open>ShipAtMoveTarget\<close>,
  the board it leaves is the board before the turn with the entry of the moving
  (alive) ship at its start coordinate removed and nothing inserted.
\<close>

theorem failed_move_board:
  assumes "process_turn board_size board t (MovementTurn x y actions) = (board1, Inl e)"
    and "e = MoveOutsideBoard t' fx fy \<or> e = ShipAtMoveTarget t' fx fy"
  shows "board1 = board((x, y) := None) \<and> (\<exists>H. board (x, y) = Some (H, True))"
  using assms
  by (auto simp: process_move_def Let_def split: option.splits if_splits sum.splits prod.splits)

theorem failed_move_board_witness:
  "process_turn 8 [(2, 2) \<mapsto> (CHR ''N'', True), (4, 5) \<mapsto> (CHR ''E'', False)] 0
     (MovementTurn 2 2 ''MMMRMM'') =
     ([(4, 5) \<mapsto> (CHR ''E'', False)], Inl (ShipAtMoveTarget 0 4 5)) \<and>
   [(4, 5) \<mapsto> (CHR ''E'', False)] =
     [(2, 2) \<mapsto> (CHR ''N'', True), (4 :: int, 5 :: int) \<mapsto> (CHR ''E'', False)]((2, 2) := None)"
proof -
  have p: "process_turn 8 [(2, 2) \<mapsto> (CHR ''N'', True), (4, 5) \<mapsto> (CHR ''E'', False)] 0
     (MovementTurn 2 2 ''MMMRMM'') =
     ([(4, 5) \<mapsto> (CHR ''E'', False)], Inl (ShipAtMoveTarget 0 4 5))"
    by (auto simp: process_move_def Let_def rotate_table subscript_def DIRECTION_DELTAS_def fun_upd_twist)
  from failed_move_board [OF p] p show ?thesis by blast
qed

section \<open>Board invariant and round trip\<close>

lemma process_move_Inr:
  assumes ok: "process_move board_size board t x y actions = (board1, Inr a)"
  shows "\<exists>H loc fH. board (x, y) = Some (H, True) \<and> in_bounds board_size loc \<and>
           (board((x, y) := None)) loc = None \<and>
           board1 = (board((x, y) := None))(loc \<mapsto> (fH, True))"
proof (cases "board (x, y)")
  case None
  with ok show ?thesis by (simp add: process_move_def)
next
  case (Some ship)
  obtain H alive where ship: "ship = (H, alive)" by (cases ship)
  show ?thesis
  proof (cases alive)
    case False
    with ok Some ship show ?thesis by (simp add: process_move_def)
  next
    case True
    show ?thesis
    proof (cases "apply_actions actions (x, y) H")
      case (Inl e)
      with ok Some ship True show ?thesis by (simp add: process_move_def)
    next
      case (Inr r)
      obtain loc fH where r: "r = (loc, fH)" by (cases r)
      from ok Some ship True Inr r
      have "in_bounds board_size loc \<and> (\<forall>v. (board((x, y) := None)) loc \<noteq> Some v) \<and>
            board1 = (board((x, y) := None))(loc \<mapsto> (fH, True))"
        by (auto simp add: process_move_def Let_def in_bounds_def simp del: fun_upd_apply
                 split: if_splits)
      then have "in_bounds board_size loc \<and> (board((x, y) := None)) loc = None \<and>
            board1 = (board((x, y) := None))(loc \<mapsto> (fH, True))"
        by (cases "(board((x, y) := None)) loc") (simp_all del: fun_upd_apply)
      then have 1: "in_bounds board_size loc"
        and 2: "(board((x, y) := None)) loc = None"
        and 3: "board1 = (board((x, y) := None))(loc \<mapsto> (fH, True))" by blast+
      from Some ship True have 0: "board (x, y) = Some (H, True)" by simp
      show ?thesis
      proof (intro exI conjI)
        show "board (x, y) = Some (H, True)" by (rule 0)
        show "in_bounds board_size loc" by (rule 1)
        show "(board((x, y) := None)) loc = None" by (rule 2)
        show "board1 = (board((x, y) := None))(loc \<mapsto> (fH, True))" by (rule 3)
      qed
    qed
  qed
qed

lemma process_shoot_dom:
  assumes ok: "process_shoot board_size board t x y = (board1, r)"
  shows "dom board1 = dom board"
proof (cases "board (x, y)")
  case None
  with ok show ?thesis by (simp add: process_shoot_def)
next
  case (Some ship)
  with ok have "board1 = board((x, y) \<mapsto> (fst ship, False))"
    by (simp add: process_shoot_def Let_def split: if_splits)
  then have "dom board1 = insert (x, y) (dom board)" by simp
  moreover from Some have "(x, y) \<in> dom board" by (simp add: domIff)
  ultimately show ?thesis by (simp add: insert_absorb)
qed

lemma card_move:
  assumes "finite D" "p \<in> D" "q \<notin> D - {p}"
  shows "card (insert q (D - {p})) = card D"
proof -
  from assms have "card (insert q (D - {p})) = Suc (card (D - {p}))" by simp
  also from assms(1,2) have "\<dots> = card D" by (rule card_Suc_Diff1)
  finally show ?thesis .
qed

text \<open>
  Claim C7. If every occupied coordinate of the board is within bounds and a turn
  completes without an exception, every occupied coordinate of the resulting board is
  within bounds. The board stays a dictionary with one ship per coordinate, and no
  ship is lost to a shared coordinate: a finite board keeps its number of ships.
\<close>

theorem turn_preserves_invariant:
  assumes inv: "board_invariant board_size board"
    and ok: "process_turn board_size board t turn = (board1, Inr a)"
  shows "board_invariant board_size board1 \<and>
         (finite (dom board) \<longrightarrow> card (dom board1) = card (dom board))"
proof (cases turn)
  case (MovementTurn x y actions)
  with ok have "process_move board_size board t x y actions = (board1, Inr a)" by simp
  from process_move_Inr [OF this] obtain H loc fH where
    ship: "board (x, y) = Some (H, True)" and loc: "in_bounds board_size loc"
    and free: "(board((x, y) := None)) loc = None"
    and b1: "board1 = (board((x, y) := None))(loc \<mapsto> (fH, True))" by blast
  have d: "dom board1 = insert loc (dom board - {(x, y)})" unfolding b1 by simp
  from ship have p: "(x, y) \<in> dom board" by (simp add: domIff)
  from free have "loc \<notin> dom (board((x, y) := None))" by (simp only: domIff not_not)
  then have q: "loc \<notin> dom board - {(x, y)}" by simp
  have "board_invariant board_size board1"
    unfolding board_invariant_def d using inv loc
    by (simp add: board_invariant_def)
  moreover have "finite (dom board) \<longrightarrow> card (dom board1) = card (dom board)"
  proof
    assume "finite (dom board)"
    from card_move [OF this p q] show "card (dom board1) = card (dom board)"
      unfolding d .
  qed
  ultimately show ?thesis by (rule conjI)
next
  case (ShootingTurn x y)
  with ok have "process_shoot board_size board t x y = (board1, Inr a)" by simp
  from process_shoot_dom [OF this] inv show ?thesis
    by (simp add: board_invariant_def)
next
  case OtherTurn
  with ok show ?thesis by simp
qed

theorem turn_preserves_invariant_witness:
  "board_invariant 10 [(5, 5) \<mapsto> (CHR ''N'', True)] \<and>
   process_turn 10 [(5, 5) \<mapsto> (CHR ''N'', True)] 0 (MovementTurn 5 5 ''M'') =
     ([(5, 6) \<mapsto> (CHR ''N'', True)], Inr (MovedShip 5 5 (CHR ''N'') 5 6 (CHR ''N''))) \<and>
   board_invariant 10 [(5, 6) \<mapsto> (CHR ''N'', True)] \<and>
   card (dom [(5 :: int, 6 :: int) \<mapsto> (CHR ''N'', True)]) =
     card (dom [(5 :: int, 5 :: int) \<mapsto> (CHR ''N'', True)])"
proof -
  have i: "board_invariant 10 [(5, 5) \<mapsto> (CHR ''N'', True)]"
    by (simp add: board_invariant_def in_bounds_def)
  have p: "process_turn 10 [(5, 5) \<mapsto> (CHR ''N'', True)] 0 (MovementTurn 5 5 ''M'') =
     ([(5, 6) \<mapsto> (CHR ''N'', True)], Inr (MovedShip 5 5 (CHR ''N'') 5 6 (CHR ''N'')))"
    by (auto simp: process_move_def Let_def rotate_table subscript_def DIRECTION_DELTAS_def)
  have f: "finite (dom [(5 :: int, 5 :: int) \<mapsto> (CHR ''N'', True)])" by simp
  from turn_preserves_invariant [OF i p] i p f show ?thesis by blast
qed

text \<open>
  Claim C9. For an alive ship with heading \<open>H\<close> at an in-bounds coordinate \<open>(x, y)\<close>,
  the action sequence \<open>MLLM\<close> (or \<open>MRRM\<close>) succeeds whatever else is on the board,
  and puts the ship back at \<open>(x, y)\<close> with the opposite heading, which is \<open>H\<close>
  rotated twice to the left, or twice to the right.
\<close>

theorem move_and_back:
  assumes "board (x, y) = Some (H, True)" and "H \<in> headings"
    and "in_bounds board_size (x, y)"
    and "actions = ''MLLM'' \<or> actions = ''MRRM''"
  shows "process_turn board_size board t (MovementTurn x y actions) =
           (board((x, y) \<mapsto> (opposite H, True)),
            Inr (MovedShip x y H x y (opposite H))) \<and>
         then_rotate (rotate_dir H (CHR ''L'')) (CHR ''L'') = Inr (opposite H) \<and>
         then_rotate (rotate_dir H (CHR ''R'')) (CHR ''R'') = Inr (opposite H)"
proof -
  have f: "foldl spec_step ((x, y), H) actions = ((x, y), opposite H)"
    using assms(2,4)
    by (auto simp: headings_def spec_rotate_def spec_delta_def opposite_def)
  have a: "set actions \<subseteq> {CHR ''L'', CHR ''R'', CHR ''M''}"
    using assms(4) by auto
  have "process_move board_size board t x y actions =
          ((board((x, y) := None))((x, y) \<mapsto> (opposite H, True)),
           Inr (MovedShip x y H x y (opposite H)))"
    using process_move_alive [of board x y H actions "(x, y)" "opposite H" board_size t]
      assms(1,2,3) a f
    by (simp del: fun_upd_apply)
  then have "process_turn board_size board t (MovementTurn x y actions) =
           (board((x, y) \<mapsto> (opposite H, True)),
            Inr (MovedShip x y H x y (opposite H)))" by simp
  moreover have "then_rotate (rotate_dir H (CHR ''L'')) (CHR ''L'') = Inr (opposite H)"
    using assms(2) by (auto simp: headings_def rotate_table opposite_def)
  moreover have "then_rotate (rotate_dir H (CHR ''R'')) (CHR ''R'') = Inr (opposite H)"
    using assms(2) by (auto simp: headings_def rotate_table opposite_def)
  ultimately show ?thesis by blast
qed

theorem move_and_back_witness:
  "process_turn 10 [(5, 5) \<mapsto> (CHR ''N'', True), (5, 6) \<mapsto> (CHR ''E'', True)] 0
     (MovementTurn 5 5 ''MLLM'') =
   ([(5, 5) \<mapsto> (CHR ''S'', True), (5, 6) \<mapsto> (CHR ''E'', True)],
    Inr (MovedShip 5 5 (CHR ''N'') 5 5 (CHR ''S'')))"
proof -
  let ?b = "[(5, 5) \<mapsto> (CHR ''N'', True), (5, 6) \<mapsto> (CHR ''E'', True)] :: board"
  have 1: "?b (5, 5) = Some (CHR ''N'', True)" by simp
  have 2: "CHR ''N'' \<in> headings" by (simp add: headings_def)
  have 3: "in_bounds 10 (5, 5)" by (simp add: in_bounds_def)
  have 4: "''MLLM'' = ''MLLM'' \<or> ''MLLM'' = ''MRRM''" by simp
  have 5: "?b((5, 5) \<mapsto> (opposite (CHR ''N''), True)) =
           [(5, 5) \<mapsto> (CHR ''S'', True), (5, 6) \<mapsto> (CHR ''E'', True)]"
    by (simp add: opposite_def fun_upd_twist)
  from move_and_back [of ?b 5 5 "CHR ''N''" 10 "''MLLM''" 0] 1 2 3 4
  have "process_turn 10 ?b 0 (MovementTurn 5 5 ''MLLM'') =
           (?b((5, 5) \<mapsto> (opposite (CHR ''N''), True)),
            Inr (MovedShip 5 5 (CHR ''N'') 5 5 (opposite (CHR ''N''))))"
    by blast
  with 5 show ?thesis by (simp add: opposite_def)
qed

section \<open>Shooting and board construction\<close>

text \<open>
  Claim C2. A shooting turn at any integer coordinate never raises. With no ship at
  \<open>(x, y)\<close> it returns \<open>ShotNoTarget(x, y)\<close> and the board is unchanged; an alive ship
  is marked not alive, with the same heading at the same coordinate, and
  \<open>SunkAliveShip(x, y)\<close> is returned; a ship that is not alive leaves the board
  unchanged and \<open>SunkDeadShip(x, y)\<close> is returned. So a second shot at a sunk ship
  returns \<open>SunkDeadShip\<close> again, on the same board.
\<close>

theorem shoot_cases:
  "(board (x, y) = None \<longrightarrow>
      process_turn board_size board t (ShootingTurn x y) = (board, Inr (ShotNoTarget x y))) \<and>
   (\<forall>H. board (x, y) = Some (H, True) \<longrightarrow>
      process_turn board_size board t (ShootingTurn x y) =
        (board((x, y) \<mapsto> (H, False)), Inr (SunkAliveShip x y)) \<and>
      process_turn board_size (board((x, y) \<mapsto> (H, False))) t1 (ShootingTurn x y) =
        (board((x, y) \<mapsto> (H, False)), Inr (SunkDeadShip x y))) \<and>
   (\<forall>H. board (x, y) = Some (H, False) \<longrightarrow>
      process_turn board_size board t (ShootingTurn x y) = (board, Inr (SunkDeadShip x y)) \<and>
      process_turn board_size (fst (process_turn board_size board t (ShootingTurn x y))) t1
        (ShootingTurn x y) = (board, Inr (SunkDeadShip x y))) \<and>
   (\<exists>board1 a. process_turn board_size board t (ShootingTurn x y) = (board1, Inr a))"
proof (intro conjI allI impI)
  assume "board (x, y) = None"
  then show "process_turn board_size board t (ShootingTurn x y) =
      (board, Inr (ShotNoTarget x y))"
    by (simp add: process_shoot_def)
next
  fix H assume "board (x, y) = Some (H, True)"
  then show "process_turn board_size board t (ShootingTurn x y) =
        (board((x, y) \<mapsto> (H, False)), Inr (SunkAliveShip x y))"
    by (simp add: process_shoot_def)
next
  fix H
  show "process_turn board_size (board((x, y) \<mapsto> (H, False))) t1 (ShootingTurn x y) =
        (board((x, y) \<mapsto> (H, False)), Inr (SunkDeadShip x y))"
    by (simp add: process_shoot_def)
next
  fix H assume d: "board (x, y) = Some (H, False)"
  then have same: "board((x, y) \<mapsto> (H, False)) = board" by (rule map_upd_triv)
  with d show 1: "process_turn board_size board t (ShootingTurn x y) =
      (board, Inr (SunkDeadShip x y))"
    by (simp add: process_shoot_def)
  from d same show "process_turn board_size (fst (process_turn board_size board t (ShootingTurn x y))) t1
        (ShootingTurn x y) = (board, Inr (SunkDeadShip x y))"
    unfolding 1 by (simp add: process_shoot_def)
next
  show "\<exists>board1 a. process_turn board_size board t (ShootingTurn x y) = (board1, Inr a)"
    by (cases "board (x, y)") (auto simp: process_shoot_def Let_def)
qed

theorem shoot_cases_witness:
  "process_turn 10 [(5, 5) \<mapsto> (CHR ''N'', True)] 0 (ShootingTurn 5 5) =
     ([(5, 5) \<mapsto> (CHR ''N'', False)], Inr (SunkAliveShip 5 5)) \<and>
   process_turn 10 [(5, 5) \<mapsto> (CHR ''N'', False)] 1 (ShootingTurn 5 5) =
     ([(5, 5) \<mapsto> (CHR ''N'', False)], Inr (SunkDeadShip 5 5)) \<and>
   process_turn 10 [(5, 5) \<mapsto> (CHR ''N'', False)] 2 (ShootingTurn (- 6) 50) =
     ([(5, 5) \<mapsto> (CHR ''N'', False)], Inr (ShotNoTarget (- 6) 50))"
proof -
  let ?b = "[(5, 5) \<mapsto> (CHR ''N'', True)] :: board"
  let ?d = "[(5, 5) \<mapsto> (CHR ''N'', False)] :: board"
  have a: "?b (5, 5) = Some (CHR ''N'', True)" by simp
  have u: "?b((5, 5) \<mapsto> (CHR ''N'', False)) = ?d" by simp
  have d: "?d (5, 5) = Some (CHR ''N'', False)" by simp
  have n: "?d (- 6, 50) = None" by simp
  from shoot_cases [of ?b 5 5 10 0 1] a
  have "process_turn 10 ?b 0 (ShootingTurn 5 5) =
        (?b((5, 5) \<mapsto> (CHR ''N'', False)), Inr (SunkAliveShip 5 5))" by blast
  then have 1: "process_turn 10 ?b 0 (ShootingTurn 5 5) = (?d, Inr (SunkAliveShip 5 5))"
    unfolding u .
  from shoot_cases [of ?d 5 5 10 1 2] d
  have 2: "process_turn 10 ?d 1 (ShootingTurn 5 5) = (?d, Inr (SunkDeadShip 5 5))" by blast
  from shoot_cases [of ?d "- 6" 50 10 2 3] n
  have 3: "process_turn 10 ?d 2 (ShootingTurn (- 6) 50) = (?d, Inr (ShotNoTarget (- 6) 50))"
    by blast
  from 1 2 3 show ?thesis by (intro conjI)
qed

lemma find_snoc:
  "find P (xs @ [x]) =
     (case find P xs of None \<Rightarrow> (if P x then Some x else None) | Some v \<Rightarrow> Some v)"
  by (induction xs) simp_all

lemma make_board_last:
  "make_board board ships loc =
     (case find (ship_at loc) (rev ships) of
        None \<Rightarrow> board loc
      | Some ship \<Rightarrow> Some (ship_state ship))"
proof (induction ships arbitrary: board)
  case Nil
  show ?case by simp
next
  case (Cons s ships)
  obtain x y d a where s: "s = Ship x y d a" by (cases s)
  show ?case
    by (cases "find (ship_at loc) (rev ships)") (auto simp: s Cons.IH find_snoc)
qed

text \<open>
  Claim C6, as the code has it. Building the board never fails: for every board size
  and initial ship list, \<open>run\<close> without turns returns the board in which a
  coordinate holds the direction and state of the last ship listed at it, and nothing
  where no ship is listed. Neither a repeated coordinate nor one out of bounds is
  rejected.
\<close>

theorem run_builds_board:
  "run board_size initial_ships [] actionList =
     (actionList, Inr (make_board Map.empty initial_ships)) \<and>
   make_board Map.empty initial_ships loc =
     map_option ship_state (find (ship_at loc) (rev initial_ships))"
  by (cases "find (ship_at loc) (rev initial_ships)")
     (simp_all add: run_def make_board_last)

text \<open>
  A fleet with a repeated coordinate and a ship out of bounds on a board of size 10 is
  accepted.
\<close>

theorem run_accepts_bad_fleet:
  "run 10 [Ship 1 1 (CHR ''N'') True, Ship 1 1 (CHR ''E'') True, Ship 12 (- 3) (CHR ''S'') True]
     [] None =
   (None, Inr [(1, 1) \<mapsto> (CHR ''E'', True), (12, - 3) \<mapsto> (CHR ''S'', True)])"
  by (simp add: run_def)

section \<open>The matcher and the grammar\<close>

lemma takeWhile_Nil_dropWhile: "takeWhile P r = [] \<Longrightarrow> dropWhile P r = r"
  by (cases r) (auto split: if_splits)

lemma dropWhile_run:
  "list_all P ws \<Longrightarrow> takeWhile P r = [] \<Longrightarrow> dropWhile P (ws @ r) = r"
  by (induction ws) (simp_all add: takeWhile_Nil_dropWhile)

lemma takeWhile_run:
  "list_all P ws \<Longrightarrow> takeWhile P r = [] \<Longrightarrow> takeWhile P (ws @ r) = ws"
  by (induction ws) simp_all

lemma takeWhile_other_run:
  "list_all Q ws \<Longrightarrow> (\<And>c. Q c \<Longrightarrow> \<not> P c) \<Longrightarrow> \<not> P d \<Longrightarrow>
     takeWhile P (ws @ d # r) = []"
  by (cases ws) simp_all

lemma space_not_digit: "isspace c \<Longrightarrow> \<not> isdigit c"
  by (auto simp: isspace_def isdigit_def)

lemma digit_not_space: "isdigit c \<Longrightarrow> \<not> isspace c"
  by (auto simp: isspace_def isdigit_def)

lemma space_not_action: "isspace c \<Longrightarrow> \<not> isaction c"
  by (auto simp: isspace_def isaction_def)

lemma action_not_space: "isaction c \<Longrightarrow> \<not> isspace c"
  by (auto simp: isspace_def isaction_def)

lemma punct_classes:
  "\<not> isspace (CHR ''('')" "\<not> isspace (CHR '','')" "\<not> isspace (CHR '')'')"
  "\<not> isdigit (CHR ''('')" "\<not> isdigit (CHR '','')" "\<not> isdigit (CHR '')'')"
  by (simp_all add: isspace_def isdigit_def)

text \<open>A number, optional whitespace and a delimiter, after optional whitespace.\<close>

lemma number_then:
  assumes X: "X \<noteq> []" "list_all isdigit X" and ws: "list_all isspace ws"
    and d: "\<not> isspace d" "\<not> isdigit d" and pre: "list_all isspace ws0"
  shows "takeWhile isdigit (dropWhile isspace (ws0 @ X @ ws @ d # r)) = X"
    and "dropWhile isspace (dropWhile isdigit (dropWhile isspace (ws0 @ X @ ws @ d # r))) = d # r"
proof -
  from X obtain c X' where Xc: "X = c # X'" and c: "isdigit c" by (cases X) auto
  have "takeWhile isspace (X @ ws @ d # r) = []"
    using c by (simp add: Xc digit_not_space)
  from dropWhile_run [OF pre this]
  have 1: "dropWhile isspace (ws0 @ X @ ws @ d # r) = X @ ws @ d # r" .
  have 2: "takeWhile isdigit (ws @ d # r) = []"
    by (rule takeWhile_other_run [where Q = isspace]) (simp_all add: ws d(2) space_not_digit)
  from takeWhile_run [OF X(2) 2] show "takeWhile isdigit (dropWhile isspace (ws0 @ X @ ws @ d # r)) = X"
    unfolding 1 .
  have 3: "takeWhile isspace (d # r) = []" using d(1) by simp
  from dropWhile_run [OF X(2) 2] dropWhile_run [OF ws 3]
  show "dropWhile isspace (dropWhile isdigit (dropWhile isspace (ws0 @ X @ ws @ d # r))) = d # r"
    unfolding 1 by simp
qed

lemma match_here_pair:
  assumes "list_all isspace ws1" "X \<noteq> []" "list_all isdigit X" "list_all isspace ws2"
    "list_all isspace ws3" "Y \<noteq> []" "list_all isdigit Y" "list_all isspace ws4"
  shows "match_here (CHR ''('' # ws1 @ X @ ws2 @ CHR '','' # ws3 @ Y @ ws4 @ CHR '')'' # rest) =
           Some (X, Y, takeWhile isaction (dropWhile isspace rest))"
proof -
  note a = number_then [OF assms(2,3,4) punct_classes(2,5) assms(1), of "ws3 @ Y @ ws4 @ CHR '')'' # rest"]
  note b = number_then [OF assms(6,7,8) punct_classes(3,6) assms(5), of rest]
  show ?thesis
    unfolding match_here_def
    by (simp add: a b assms Let_def)
qed

lemma list_all_takeWhile: "list_all P (takeWhile P xs)"
  by (induction xs) simp_all

lemma match_here_coordinate_pair:
  assumes "whitespace ws1" "number X" "whitespace ws2" "whitespace ws3" "number Y" "whitespace ws4"
  shows "match_here (coordinate_pair ws1 X ws2 ws3 Y ws4 @ rest) =
           Some (X, Y, takeWhile isaction (dropWhile isspace rest))"
  using match_here_pair [of ws1 X ws2 ws3 Y ws4 rest] assms
  by (simp add: coordinate_pair_def whitespace_def number_def)

lemma match_here_sound:
  assumes m: "match_here s = Some (X, Y, A)"
  shows "\<exists>ws1 ws2 ws3 ws4 rest.
           whitespace ws1 \<and> number X \<and> whitespace ws2 \<and>
           whitespace ws3 \<and> number Y \<and> whitespace ws4 \<and>
           s = coordinate_pair ws1 X ws2 ws3 Y ws4 @ rest \<and>
           A = takeWhile isaction (dropWhile isspace rest)"
proof -
  from m obtain s1 where s: "s = CHR ''('' # s1"
    by (cases s) (auto simp: match_here_def split: if_splits)
  define ws1 where "ws1 = takeWhile isspace s1"
  define s2 where "s2 = dropWhile isspace s1"
  define r2 where "r2 = dropWhile isdigit s2"
  define ws2 where "ws2 = takeWhile isspace r2"
  have s1: "s1 = ws1 @ s2" by (simp add: ws1_def s2_def)
  have s2: "s2 = takeWhile isdigit s2 @ ws2 @ dropWhile isspace r2"
    by (simp add: r2_def ws2_def)
  from m s have X: "X = takeWhile isdigit s2" and Xne: "X \<noteq> []"
    by (auto simp: match_here_def Let_def s2_def split: if_splits list.splits)
  from m s obtain s4 where s3: "dropWhile isspace r2 = CHR '','' # s4"
    by (auto simp: match_here_def Let_def s2_def r2_def split: if_splits list.splits)
  define ws3 where "ws3 = takeWhile isspace s4"
  define s5 where "s5 = dropWhile isspace s4"
  define r5 where "r5 = dropWhile isdigit s5"
  define ws4 where "ws4 = takeWhile isspace r5"
  have s4: "s4 = ws3 @ s5" by (simp add: ws3_def s5_def)
  have s5: "s5 = takeWhile isdigit s5 @ ws4 @ dropWhile isspace r5"
    by (simp add: r5_def ws4_def)
  from m s s3 have Y: "Y = takeWhile isdigit s5" and Yne: "Y \<noteq> []"
    by (auto simp: match_here_def Let_def s2_def r2_def s5_def split: if_splits list.splits)
  from m s s3 obtain s7 where s6: "dropWhile isspace r5 = CHR '')'' # s7"
    and A: "A = takeWhile isaction (dropWhile isspace s7)"
    by (auto simp: match_here_def Let_def s2_def r2_def s5_def r5_def
             split: if_splits list.splits)
  have "s = coordinate_pair ws1 X ws2 ws3 Y ws4 @ s7"
    using s s1 s2 s3 s4 s5 s6 X Y by (simp add: coordinate_pair_def)
  moreover have "whitespace ws1" "whitespace ws2" "whitespace ws3" "whitespace ws4"
    by (simp_all add: whitespace_def ws1_def ws2_def ws3_def ws4_def list_all_takeWhile)
  moreover have "number X" "number Y"
    using Xne Yne by (simp_all add: number_def X Y list_all_takeWhile)
  ultimately show ?thesis using A by blast
qed

lemma search_Some:
  "search s = Some m \<Longrightarrow> \<exists>pre s'. s = pre @ s' \<and> match_here s' = Some m"
proof (induction s)
  case Nil
  then show ?case by simp
next
  case (Cons c s)
  show ?case
  proof (cases "match_here (c # s)")
    case None
    with Cons.prems have "search s = Some m" by simp
    from Cons.IH [OF this] obtain pre s' where "s = pre @ s'" "match_here s' = Some m"
      by blast
    then have "c # s = (c # pre) @ s'" "match_here s' = Some m" by simp_all
    then show ?thesis by blast
  next
    case (Some m')
    with Cons.prems have "match_here (c # s) = Some m" by simp
    then have "c # s = [] @ (c # s)" "match_here (c # s) = Some m" by simp_all
    then show ?thesis by blast
  qed
qed

lemma search_here:
  "match_here s = Some m \<Longrightarrow> search s = Some m"
  by (cases s) simp_all

lemma search_finds:
  "match_here s' = Some m \<Longrightarrow> search (pre @ s') \<noteq> None"
proof (induction pre)
  case Nil
  then show ?case by (simp add: search_here)
next
  case (Cons c pre)
  then show ?case by (cases "match_here (c # pre @ s')") simp_all
qed

lemma search_iff: "search s \<noteq> None \<longleftrightarrow> contains_coordinate_pair s"
proof
  assume "search s \<noteq> None"
  then obtain X Y A where "search s = Some (X, Y, A)" by (cases "search s") auto
  from search_Some [OF this] obtain pre s' where s: "s = pre @ s'"
    and m: "match_here s' = Some (X, Y, A)" by blast
  from match_here_sound [OF m] s show "contains_coordinate_pair s"
    unfolding contains_coordinate_pair_def by blast
next
  assume "contains_coordinate_pair s"
  then obtain pre ws1 X ws2 ws3 Y ws4 rest where
    c: "whitespace ws1" "number X" "whitespace ws2" "whitespace ws3" "number Y" "whitespace ws4"
    and s: "s = pre @ coordinate_pair ws1 X ws2 ws3 Y ws4 @ rest"
    unfolding contains_coordinate_pair_def by blast
  from search_finds [OF match_here_coordinate_pair [OF c]] s
  show "search s \<noteq> None" by simp
qed

lemma dropWhile_keeps: "\<not> P c \<Longrightarrow> \<exists>a'. dropWhile P (a @ c # r) = a' @ c # r"
proof (induction a)
  case Nil
  then have "dropWhile P ([] @ c # r) = [] @ c # r" by simp
  then show ?case by blast
next
  case (Cons x a)
  show ?case
  proof (cases "P x")
    case True
    with Cons show ?thesis by simp
  next
    case False
    then have "dropWhile P ((x # a) @ c # r) = (x # a) @ c # r" by simp
    then show ?thesis by blast
  qed
qed

lemma strip_keeps:
  assumes "\<not> isspace c1" "\<not> isspace c2"
  shows "\<exists>a' b'. strip (a @ c1 # mid @ c2 # b) = a' @ c1 # mid @ c2 # b'"
proof -
  from dropWhile_keeps [of isspace c1 a "mid @ c2 # b"] assms(1) obtain a' where
    1: "dropWhile isspace (a @ c1 # mid @ c2 # b) = a' @ c1 # mid @ c2 # b" by blast
  have 2: "rev (a' @ c1 # mid @ c2 # b) = rev b @ c2 # rev (a' @ c1 # mid)" by simp
  from dropWhile_keeps [of isspace c2 "rev b" "rev (a' @ c1 # mid)"] assms(2) obtain b' where
    3: "dropWhile isspace (rev b @ c2 # rev (a' @ c1 # mid)) = b' @ c2 # rev (a' @ c1 # mid)"
    by blast
  have "strip (a @ c1 # mid @ c2 # b) = a' @ c1 # mid @ c2 # rev b'"
    unfolding strip_def 1 2 3 by simp
  then show ?thesis by blast
qed

lemma strip_part: "\<exists>l t. s = l @ strip s @ t"
proof -
  define d where "d = dropWhile isspace s"
  have "s = takeWhile isspace s @ d" by (simp add: d_def)
  moreover have "d = strip s @ rev (takeWhile isspace (rev d))"
  proof -
    have "rev (dropWhile isspace (rev d)) @ rev (takeWhile isspace (rev d)) =
          rev (takeWhile isspace (rev d) @ dropWhile isspace (rev d))"
      by (simp only: rev_append)
    also have "\<dots> = rev (rev d)" by (simp only: takeWhile_dropWhile_id)
    also have "\<dots> = d" by simp
    finally show ?thesis by (simp only: strip_def d_def)
  qed
  ultimately have "s = takeWhile isspace s @ strip s @ rev (takeWhile isspace (rev d))"
    by simp
  then show ?thesis by blast
qed

lemma contains_strip: "contains_coordinate_pair (strip s) \<longleftrightarrow> contains_coordinate_pair s"
proof
  assume "contains_coordinate_pair (strip s)"
  then obtain pre ws1 X ws2 ws3 Y ws4 rest where
    c: "whitespace ws1 \<and> number X \<and> whitespace ws2 \<and> whitespace ws3 \<and> number Y \<and> whitespace ws4"
    and s: "strip s = pre @ coordinate_pair ws1 X ws2 ws3 Y ws4 @ rest"
    unfolding contains_coordinate_pair_def by blast
  from strip_part obtain l t where "s = l @ strip s @ t" by blast
  with s have "s = (l @ pre) @ coordinate_pair ws1 X ws2 ws3 Y ws4 @ (rest @ t)" by simp
  with c show "contains_coordinate_pair s"
    unfolding contains_coordinate_pair_def by blast
next
  assume "contains_coordinate_pair s"
  then obtain pre ws1 X ws2 ws3 Y ws4 rest where
    c: "whitespace ws1 \<and> number X \<and> whitespace ws2 \<and> whitespace ws3 \<and> number Y \<and> whitespace ws4"
    and s: "s = pre @ coordinate_pair ws1 X ws2 ws3 Y ws4 @ rest"
    unfolding contains_coordinate_pair_def by blast
  define mid where "mid = ws1 @ X @ ws2 @ '','' @ ws3 @ Y @ ws4"
  have cp: "coordinate_pair ws1 X ws2 ws3 Y ws4 @ r = CHR ''('' # mid @ CHR '')'' # r" for r
    by (simp add: coordinate_pair_def mid_def)
  from strip_keeps [OF punct_classes(1) punct_classes(3), of pre mid rest]
  obtain a' b' where "strip (pre @ CHR ''('' # mid @ CHR '')'' # rest) =
      a' @ CHR ''('' # mid @ CHR '')'' # b'" by blast
  then have "strip s = a' @ coordinate_pair ws1 X ws2 ws3 Y ws4 @ b'"
    by (simp add: s cp)
  with c show "contains_coordinate_pair (strip s)"
    unfolding contains_coordinate_pair_def by blast
qed

lemma strip_turn_line:
  assumes ws: "whitespace ws0" "whitespace ws5" "whitespace ws6"
    and A: "list_all isaction A"
  shows "strip (ws0 @ coordinate_pair ws1 X ws2 ws3 Y ws4 @ ws5 @ A @ ws6) =
           coordinate_pair ws1 X ws2 ws3 Y ws4 @ (if A = [] then [] else ws5 @ A)"
proof -
  define mid where "mid = ws1 @ X @ ws2 @ '','' @ ws3 @ Y @ ws4"
  have cp: "coordinate_pair ws1 X ws2 ws3 Y ws4 = CHR ''('' # mid @ [CHR '')'']"
    by (simp add: coordinate_pair_def mid_def)
  have rcp: "rev (coordinate_pair ws1 X ws2 ws3 Y ws4) = CHR '')'' # rev mid @ [CHR ''('']"
    by (simp add: cp)
  have "takeWhile isspace (coordinate_pair ws1 X ws2 ws3 Y ws4 @ ws5 @ A @ ws6) = []"
    by (simp add: cp punct_classes)
  from dropWhile_run [OF ws(1) [unfolded whitespace_def] this]
  have 1: "dropWhile isspace (ws0 @ coordinate_pair ws1 X ws2 ws3 Y ws4 @ ws5 @ A @ ws6) =
           coordinate_pair ws1 X ws2 ws3 Y ws4 @ ws5 @ A @ ws6" .
  show ?thesis
  proof (cases "A = []")
    case True
    have sp: "list_all isspace (rev ws6 @ rev ws5)"
      using ws(2,3) by (simp add: whitespace_def)
    have "takeWhile isspace (rev (coordinate_pair ws1 X ws2 ws3 Y ws4)) = []"
      by (simp add: rcp punct_classes)
    from dropWhile_run [OF sp this]
    have "dropWhile isspace (rev (coordinate_pair ws1 X ws2 ws3 Y ws4 @ ws5 @ A @ ws6)) =
          rev (coordinate_pair ws1 X ws2 ws3 Y ws4)"
      by (simp add: True)
    then show ?thesis unfolding strip_def 1 by (simp add: True)
  next
    case False
    then obtain A' z where Az: "A = A' @ [z]" by (cases A rule: rev_cases) auto
    with A have "isaction z" by simp
    then have z: "\<not> isspace z" by (rule action_not_space)
    have sp: "list_all isspace (rev ws6)" using ws(3) by (simp add: whitespace_def)
    have "takeWhile isspace (rev A @ rev ws5 @ rev (coordinate_pair ws1 X ws2 ws3 Y ws4)) = []"
      using z by (simp add: Az)
    from dropWhile_run [OF sp this]
    have "dropWhile isspace (rev (coordinate_pair ws1 X ws2 ws3 Y ws4 @ ws5 @ A @ ws6)) =
          rev A @ rev ws5 @ rev (coordinate_pair ws1 X ws2 ws3 Y ws4)"
      by simp
    then show ?thesis unfolding strip_def 1 using False by simp
  qed
qed

lemma search_turn_line:
  assumes "whitespace ws1" "number X" "whitespace ws2" "whitespace ws3" "number Y" "whitespace ws4"
    and ws5: "whitespace ws5" and A: "list_all isaction A"
  shows "search (coordinate_pair ws1 X ws2 ws3 Y ws4 @ (if A = [] then [] else ws5 @ A)) =
           Some (X, Y, A)"
proof -
  have "takeWhile isaction (dropWhile isspace (if A = [] then [] else ws5 @ A)) = A"
  proof (cases "A = []")
    case True
    then show ?thesis by simp
  next
    case False
    then obtain a A' where Aa: "A = a # A'" by (cases A) auto
    with A have "\<not> isspace a" by (simp add: action_not_space)
    then have "takeWhile isspace A = []" by (simp add: Aa)
    from dropWhile_run [OF ws5 [unfolded whitespace_def] this]
    have "dropWhile isspace (ws5 @ A) = A" .
    moreover from takeWhile_run [OF A, of "[]"] have "takeWhile isaction A = A" by simp
    ultimately show ?thesis using False by simp
  qed
  with match_here_coordinate_pair [OF assms(1-6), of "if A = [] then [] else ws5 @ A"]
  have "match_here (coordinate_pair ws1 X ws2 ws3 Y ws4 @ (if A = [] then [] else ws5 @ A)) =
          Some (X, Y, A)" by simp
  then show ?thesis by (rule search_here)
qed

section \<open>Parsing\<close>

lemma grammar_char_runs:
  "whitespace ws \<Longrightarrow> list_all grammar_char ws"
  "number ds \<Longrightarrow> list_all grammar_char ds"
  "list_all isaction A \<Longrightarrow> list_all grammar_char A"
  by (simp_all add: whitespace_def number_def list_all_iff grammar_char_def)

lemma grammar_char_punct:
  "grammar_char (CHR ''('')" "grammar_char (CHR '','')" "grammar_char (CHR '')'')"
  by (simp_all add: grammar_char_def)

lemma turn_line_chars:
  assumes "whitespace ws0" "whitespace ws1" "number X" "whitespace ws2"
    "whitespace ws3" "number Y" "whitespace ws4"
    "whitespace ws5" "list_all isaction A" "whitespace ws6"
  shows "list_all grammar_char (ws0 @ coordinate_pair ws1 X ws2 ws3 Y ws4 @ ws5 @ A @ ws6)"
  using assms by (simp add: coordinate_pair_def grammar_char_runs grammar_char_punct)

lemma turn_grammar_chars:
  "turn_grammar line \<Longrightarrow> list_all grammar_char line"
  unfolding turn_grammar_def
  by (elim exE conjE, hypsubst) (rule turn_line_chars; assumption)

lemma contains_intro:
  assumes "whitespace ws1" "number X" "whitespace ws2" "whitespace ws3" "number Y" "whitespace ws4"
  shows "contains_coordinate_pair (pre @ coordinate_pair ws1 X ws2 ws3 Y ws4 @ rest)"
  unfolding contains_coordinate_pair_def using assms by blast

lemma contains_has_paren:
  "contains_coordinate_pair s \<Longrightarrow> CHR ''('' \<in> set s"
  unfolding contains_coordinate_pair_def coordinate_pair_def by auto

lemma make_turn_cases:
  "make_turn_from_line line =
     (case search (strip line) of
        None \<Rightarrow> Inl AttributeError
      | Some (X, Y, A) \<Rightarrow>
          Inr (if A \<noteq> [] then MovementTurn (int_of_digits X) (int_of_digits Y) A
               else ShootingTurn (int_of_digits X) (int_of_digits Y)))"
  by (simp add: make_turn_from_line_def Let_def split: option.splits)

text \<open>
  Claim C10. Every line of the grammar, with any whitespace before it, between its
  parts and after it, parses to the command that carries the two numbers:
  a \<open>MovementTurn\<close> with exactly the action letters of the line, in order, if there is
  at least one, and a \<open>ShootingTurn\<close> otherwise. The lines \<open>(123,4)\<close>, \<open>( 123, 4)\<close>
  and \<open>( 123 , 4 )\<close> all parse to \<open>ShootingTurn(123, 4)\<close>.
\<close>

theorem parse_turn_line:
  "(\<forall>ws0 ws1 X ws2 ws3 Y ws4 ws5 A ws6.
      whitespace ws0 \<and> whitespace ws1 \<and> number X \<and> whitespace ws2 \<and>
      whitespace ws3 \<and> number Y \<and> whitespace ws4 \<and>
      whitespace ws5 \<and> list_all isaction A \<and> whitespace ws6 \<longrightarrow>
      make_turn_from_line (ws0 @ coordinate_pair ws1 X ws2 ws3 Y ws4 @ ws5 @ A @ ws6) =
        Inr (if A \<noteq> [] then MovementTurn (int_of_digits X) (int_of_digits Y) A
             else ShootingTurn (int_of_digits X) (int_of_digits Y))) \<and>
   make_turn_from_line ''(123,4)'' = Inr (ShootingTurn 123 4) \<and>
   make_turn_from_line ''( 123, 4)'' = Inr (ShootingTurn 123 4) \<and>
   make_turn_from_line ''( 123 , 4 )'' = Inr (ShootingTurn 123 4)"
proof (intro conjI allI impI)
  fix ws0 ws1 X ws2 ws3 Y ws4 ws5 A ws6
  assume h: "whitespace ws0 \<and> whitespace ws1 \<and> number X \<and> whitespace ws2 \<and>
      whitespace ws3 \<and> number Y \<and> whitespace ws4 \<and>
      whitespace ws5 \<and> list_all isaction A \<and> whitespace ws6"
  then have s: "strip (ws0 @ coordinate_pair ws1 X ws2 ws3 Y ws4 @ ws5 @ A @ ws6) =
           coordinate_pair ws1 X ws2 ws3 Y ws4 @ (if A = [] then [] else ws5 @ A)"
    by (intro strip_turn_line) simp_all
  from h have "search (coordinate_pair ws1 X ws2 ws3 Y ws4 @ (if A = [] then [] else ws5 @ A)) =
           Some (X, Y, A)"
    by (intro search_turn_line) simp_all
  then show "make_turn_from_line (ws0 @ coordinate_pair ws1 X ws2 ws3 Y ws4 @ ws5 @ A @ ws6) =
        Inr (if A \<noteq> [] then MovementTurn (int_of_digits X) (int_of_digits Y) A
             else ShootingTurn (int_of_digits X) (int_of_digits Y))"
    unfolding make_turn_cases s by simp
next
  show "make_turn_from_line ''(123,4)'' = Inr (ShootingTurn 123 4)"
    by (simp add: make_turn_from_line_def strip_def isspace_def isdigit_def isaction_def
          match_here_def int_of_digits_def digit_value_def)
  show "make_turn_from_line ''( 123, 4)'' = Inr (ShootingTurn 123 4)"
    by (simp add: make_turn_from_line_def strip_def isspace_def isdigit_def isaction_def
          match_here_def int_of_digits_def digit_value_def)
  show "make_turn_from_line ''( 123 , 4 )'' = Inr (ShootingTurn 123 4)"
    by (simp add: make_turn_from_line_def strip_def isspace_def isdigit_def isaction_def
          match_here_def int_of_digits_def digit_value_def)
qed

theorem parse_turn_line_witness:
  "make_turn_from_line '' ( 123, 456  )     LLLRRRMRMMRMRMLRLRLMR'' =
     Inr (MovementTurn 123 456 ''LLLRRRMRMMRMRMLRLRLMR'')"
proof -
  have h: "whitespace '' '' \<and> whitespace '' '' \<and> number ''123'' \<and> whitespace [] \<and>
      whitespace '' '' \<and> number ''456'' \<and> whitespace ''  '' \<and>
      whitespace ''     '' \<and> list_all isaction ''LLLRRRMRMMRMRMLRLRLMR'' \<and> whitespace []"
    by (simp add: whitespace_def number_def isspace_def isdigit_def isaction_def)
  from parse_turn_line [THEN conjunct1, rule_format, OF h]
  have "make_turn_from_line ('' '' @ coordinate_pair '' '' ''123'' [] '' '' ''456'' ''  '' @
          ''     '' @ ''LLLRRRMRMMRMRMLRLRLMR'' @ []) =
        Inr (if ''LLLRRRMRMMRMRMLRLRLMR'' \<noteq> []
             then MovementTurn (int_of_digits ''123'') (int_of_digits ''456'') ''LLLRRRMRMMRMRMLRLRLMR''
             else ShootingTurn (int_of_digits ''123'') (int_of_digits ''456''))" .
  then show ?thesis
    by (simp add: coordinate_pair_def int_of_digits_def digit_value_def)
qed

lemma search_leftmost:
  "search s = Some m \<Longrightarrow>
     \<exists>pre s'. s = pre @ s' \<and> match_here s' = Some m \<and>
       (\<forall>p q. pre = p @ q \<and> q \<noteq> [] \<longrightarrow> match_here (q @ s') = None)"
proof (induction s)
  case Nil
  then have "[] = [] @ ([] :: string) \<and> match_here [] = Some m \<and>
       (\<forall>p q. [] = p @ q \<and> q \<noteq> [] \<longrightarrow> match_here (q @ []) = None)" by simp
  then show ?case by blast
next
  case (Cons c s)
  show ?case
  proof (cases "match_here (c # s)")
    case None
    with Cons.prems have "search s = Some m" by simp
    from Cons.IH [OF this] obtain pre s' where s: "s = pre @ s'"
      and m: "match_here s' = Some m"
      and l: "\<forall>p q. pre = p @ q \<and> q \<noteq> [] \<longrightarrow> match_here (q @ s') = None" by blast
    have "\<forall>p q. c # pre = p @ q \<and> q \<noteq> [] \<longrightarrow> match_here (q @ s') = None"
    proof (intro allI impI)
      fix p q assume a: "c # pre = p @ q \<and> q \<noteq> []"
      show "match_here (q @ s') = None"
      proof (cases p)
        case Nil
        with a have "q @ s' = c # s" by (simp add: s)
        with None show ?thesis by simp
      next
        case (Cons c' p')
        with a have "pre = p' @ q \<and> q \<noteq> []" by simp
        with l show ?thesis by blast
      qed
    qed
    moreover have "c # s = (c # pre) @ s'" by (simp add: s)
    ultimately show ?thesis using m by blast
  next
    case (Some m')
    with Cons.prems have "match_here (c # s) = Some m" by simp
    then have "c # s = [] @ (c # s) \<and> match_here (c # s) = Some m \<and>
       (\<forall>p q. [] = p @ q \<and> q \<noteq> [] \<longrightarrow> match_here (q @ (c # s)) = None)" by simp
    then show ?thesis by blast
  qed
qed

lemma match_here_starts: "match_here s \<noteq> None \<longleftrightarrow> starts_with_coordinate_pair s"
proof
  assume "match_here s \<noteq> None"
  then obtain X Y A where "match_here s = Some (X, Y, A)" by (cases "match_here s") auto
  from match_here_sound [OF this] show "starts_with_coordinate_pair s"
    unfolding starts_with_coordinate_pair_def by blast
next
  assume "starts_with_coordinate_pair s"
  then obtain ws1 X ws2 ws3 Y ws4 rest where
    c: "whitespace ws1" "number X" "whitespace ws2" "whitespace ws3" "number Y" "whitespace ws4"
    and s: "s = coordinate_pair ws1 X ws2 ws3 Y ws4 @ rest"
    unfolding starts_with_coordinate_pair_def by blast
  from match_here_coordinate_pair [OF c, of rest] s show "match_here s \<noteq> None" by simp
qed

lemma starts_head: "starts_with_coordinate_pair (c # s) \<Longrightarrow> c = CHR ''(''"
  unfolding starts_with_coordinate_pair_def coordinate_pair_def by auto

lemma coordinate_pair_last:
  "coordinate_pair ws1 X ws2 ws3 Y ws4 \<noteq> [] \<and> last (coordinate_pair ws1 X ws2 ws3 Y ws4) = CHR '')''"
  by (simp add: coordinate_pair_def)

lemma starts_append_space:
  assumes st: "starts_with_coordinate_pair (s @ t)" and t: "list_all isspace t"
  shows "starts_with_coordinate_pair s"
proof -
  from st obtain ws1 X ws2 ws3 Y ws4 rest where
    c: "whitespace ws1 \<and> number X \<and> whitespace ws2 \<and> whitespace ws3 \<and> number Y \<and> whitespace ws4"
    and e: "s @ t = coordinate_pair ws1 X ws2 ws3 Y ws4 @ rest"
    unfolding starts_with_coordinate_pair_def by blast
  define cp where "cp = coordinate_pair ws1 X ws2 ws3 Y ws4"
  have cpl: "cp \<noteq> []" "last cp = CHR '')''" using coordinate_pair_last by (simp_all add: cp_def)
  from e have "s @ t = cp @ rest" by (simp add: cp_def)
  then obtain us where "(s = cp @ us \<and> us @ t = rest) \<or> (s @ us = cp \<and> t = us @ rest)"
    by (auto simp: append_eq_append_conv2)
  then show ?thesis
  proof
    assume "s = cp @ us \<and> us @ t = rest"
    then have "s = coordinate_pair ws1 X ws2 ws3 Y ws4 @ us" by (simp add: cp_def)
    with c show ?thesis unfolding starts_with_coordinate_pair_def by blast
  next
    assume a: "s @ us = cp \<and> t = us @ rest"
    have "us = []"
    proof (rule ccontr)
      assume ne: "us \<noteq> []"
      with a have "last us = last cp" by (metis last_appendR)
      with cpl have "last us = CHR '')''" by simp
      moreover from ne have "last us \<in> set us" by simp
      with a t have "isspace (last us)" by (auto simp: list_all_iff)
      ultimately show False by (simp add: punct_classes)
    qed
    with a have "s = coordinate_pair ws1 X ws2 ws3 Y ws4 @ []" by (simp add: cp_def)
    with c show ?thesis unfolding starts_with_coordinate_pair_def by blast
  qed
qed

lemma strip_decomp:
  "\<exists>l t. s = l @ strip s @ t \<and> list_all isspace l \<and> list_all isspace t \<and>
         (strip s = [] \<or> \<not> isspace (last (strip s)))"
proof -
  define d where "d = dropWhile isspace s"
  define l where "l = takeWhile isspace s"
  define t where "t = rev (takeWhile isspace (rev d))"
  have 1: "s = l @ d" by (simp add: d_def l_def)
  have 2: "d = strip s @ t"
  proof -
    have "rev (dropWhile isspace (rev d)) @ rev (takeWhile isspace (rev d)) =
          rev (takeWhile isspace (rev d) @ dropWhile isspace (rev d))"
      by (simp only: rev_append)
    also have "\<dots> = rev (rev d)" by (simp only: takeWhile_dropWhile_id)
    also have "\<dots> = d" by simp
    finally show ?thesis by (simp only: strip_def d_def t_def)
  qed
  have 3: "list_all isspace l" by (simp add: l_def list_all_takeWhile)
  have 4: "list_all isspace t"
    using list_all_takeWhile [of isspace "rev d"] by (simp add: t_def list_all_iff)
  have 5: "strip s = [] \<or> \<not> isspace (last (strip s))"
  proof (cases "strip s = []")
    case True
    then show ?thesis by simp
  next
    case False
    then have ne: "dropWhile isspace (rev d) \<noteq> []" by (simp add: strip_def d_def)
    then have "\<not> isspace (hd (dropWhile isspace (rev d)))" by (rule hd_dropWhile)
    moreover have "last (strip s) = hd (dropWhile isspace (rev d))"
      using ne by (simp add: strip_def d_def last_rev)
    ultimately show ?thesis by simp
  qed
  from 1 2 have "s = l @ strip s @ t" by simp
  with 3 4 5 show ?thesis by blast
qed

lemma action_letters_append_space:
  assumes t: "list_all isspace t" and r: "r = [] \<or> \<not> isspace (last r)"
  shows "action_letters (r @ t) = action_letters r"
proof (cases "r = []")
  case True
  have dt: "dropWhile isspace t = []"
    using t by (simp add: dropWhile_eq_Nil_conv list_all_iff)
  show ?thesis by (simp add: action_letters_def True dt)
next
  case False
  with r have "last r \<in> set r" "\<not> isspace (last r)" by simp_all
  then have d: "dropWhile isspace (r @ t) = dropWhile isspace r @ t"
    by (rule dropWhile_append1)
  have tt: "takeWhile isaction t = []"
    using t by (cases t) (simp_all add: space_not_action)
  have "takeWhile isaction (dropWhile isspace r @ t) = takeWhile isaction (dropWhile isspace r)"
  proof (cases "\<forall>x \<in> set (dropWhile isspace r). isaction x")
    case True
    then have la: "list_all isaction (dropWhile isspace r)" by (simp add: list_all_iff)
    from takeWhile_run [OF la tt]
    have a: "takeWhile isaction (dropWhile isspace r @ t) = dropWhile isspace r" .
    have e: "takeWhile isaction ([] :: string) = []" by simp
    from takeWhile_run [OF la e]
    have b: "takeWhile isaction (dropWhile isspace r) = dropWhile isspace r" by simp
    show ?thesis by (simp only: a b)
  next
    case False
    then obtain x where "x \<in> set (dropWhile isspace r)" "\<not> isaction x" by blast
    then show ?thesis by (rule takeWhile_append1)
  qed
  with d show ?thesis by (simp add: action_letters_def)
qed

lemma leftmost_in_line:
  assumes l: "list_all isspace l" and t: "list_all isspace t"
    and left: "\<forall>p q. pre = p @ q \<and> q \<noteq> [] \<longrightarrow> match_here (q @ s') = None"
  shows "\<forall>p q. l @ pre = p @ q \<and> q \<noteq> [] \<longrightarrow> \<not> starts_with_coordinate_pair (q @ s' @ t)"
proof (intro allI impI)
  fix p q assume a: "l @ pre = p @ q \<and> q \<noteq> []"
  then obtain us where u: "(l = p @ us \<and> us @ pre = q) \<or> (l @ us = p \<and> pre = us @ q)"
    by (auto simp: append_eq_append_conv2)
  have inside: "\<not> starts_with_coordinate_pair (q @ s' @ t)" if "pre = v @ q" for v
  proof
    assume "starts_with_coordinate_pair (q @ s' @ t)"
    then have "starts_with_coordinate_pair ((q @ s') @ t)" by simp
    then have "starts_with_coordinate_pair (q @ s')" using t by (rule starts_append_space)
    then have "match_here (q @ s') \<noteq> None" using match_here_starts [of "q @ s'"] by blast
    moreover from left that a have "match_here (q @ s') = None" by blast
    ultimately show False by simp
  qed
  from u show "\<not> starts_with_coordinate_pair (q @ s' @ t)"
  proof
    assume b: "l = p @ us \<and> us @ pre = q"
    show ?thesis
    proof (cases us)
      case Nil
      with b have "pre = [] @ q" by simp
      then show ?thesis by (rule inside)
    next
      case (Cons c us')
      with b l have sp: "isspace c" by simp
      show ?thesis
      proof
        assume "starts_with_coordinate_pair (q @ s' @ t)"
        with b Cons have "starts_with_coordinate_pair (c # (us' @ pre @ s' @ t))" by auto
        then have "c = CHR ''(''" by (rule starts_head)
        with sp show False by (simp add: punct_classes)
      qed
    qed
  next
    assume "l @ us = p \<and> pre = us @ q"
    then have "pre = us @ q" by simp
    then show ?thesis by (rule inside)
  qed
qed

text \<open>
  Claim C4, as the code has it. Text is over the code points below 256, a digit is
  one of the ten ASCII digits and whitespace is what \<open>str.strip\<close> removes. The parser
  searches the stripped line for the pattern instead of matching the whole line
  against it. A line with no parenthesised coordinate pair anywhere inside fails, with
  the \<open>AttributeError\<close> of \<open>match.group\<close> on a failed search (the source has no parse
  error of its own). A line that has one is parsed from the leftmost place where a
  pair begins: the command carries the values of the two digit runs of that pair and
  the action letters read after it, and is a \<open>MovementTurn\<close> if there is a letter and
  a \<open>ShootingTurn\<close> otherwise, whatever stands before the pair or after the letters.
\<close>

theorem parser_failure:
  "(\<not> contains_coordinate_pair line \<longrightarrow> make_turn_from_line line = Inl AttributeError) \<and>
   (contains_coordinate_pair line \<longrightarrow>
      (\<exists>pre ws1 X ws2 ws3 Y ws4 rest.
         whitespace ws1 \<and> number X \<and> whitespace ws2 \<and>
         whitespace ws3 \<and> number Y \<and> whitespace ws4 \<and>
         line = pre @ coordinate_pair ws1 X ws2 ws3 Y ws4 @ rest \<and>
         (\<forall>p q. pre = p @ q \<and> q \<noteq> [] \<longrightarrow>
            \<not> starts_with_coordinate_pair (q @ coordinate_pair ws1 X ws2 ws3 Y ws4 @ rest)) \<and>
         make_turn_from_line line =
           Inr (if action_letters rest \<noteq> []
                then MovementTurn (int_of_digits X) (int_of_digits Y) (action_letters rest)
                else ShootingTurn (int_of_digits X) (int_of_digits Y))))"
proof (intro conjI impI)
  assume "\<not> contains_coordinate_pair line"
  then have "\<not> contains_coordinate_pair (strip line)" by (simp add: contains_strip)
  then have "search (strip line) = None" using search_iff [of "strip line"] by blast
  then show "make_turn_from_line line = Inl AttributeError"
    by (simp add: make_turn_cases)
next
  assume "contains_coordinate_pair line"
  then have "contains_coordinate_pair (strip line)" by (simp add: contains_strip)
  then have "search (strip line) \<noteq> None" using search_iff [of "strip line"] by blast
  then obtain X Y A where s: "search (strip line) = Some (X, Y, A)"
    by (cases "search (strip line)") auto
  from search_leftmost [OF s] obtain pre s' where sl: "strip line = pre @ s'"
    and m: "match_here s' = Some (X, Y, A)"
    and left: "\<forall>p q. pre = p @ q \<and> q \<noteq> [] \<longrightarrow> match_here (q @ s') = None" by blast
  from match_here_sound [OF m] obtain ws1 ws2 ws3 ws4 rest where
    c: "whitespace ws1 \<and> number X \<and> whitespace ws2 \<and> whitespace ws3 \<and> number Y \<and> whitespace ws4"
    and s': "s' = coordinate_pair ws1 X ws2 ws3 Y ws4 @ rest"
    and A: "A = takeWhile isaction (dropWhile isspace rest)" by blast
  from strip_decomp [of line] obtain l t where line: "line = l @ strip line @ t"
    and l: "list_all isspace l" and t: "list_all isspace t"
    and e: "strip line = [] \<or> \<not> isspace (last (strip line))" by blast
  have ne: "strip line \<noteq> []" using sl s' coordinate_pair_last by auto
  have r: "rest = [] \<or> \<not> isspace (last rest)"
  proof (cases "rest = []")
    case True
    then show ?thesis by simp
  next
    case False
    then have "last (strip line) = last rest" by (simp add: sl s')
    with e ne show ?thesis by simp
  qed
  from action_letters_append_space [OF t r] A
  have A': "A = action_letters (rest @ t)" by (simp add: action_letters_def)
  from line sl s'
  have 1: "line = (l @ pre) @ coordinate_pair ws1 X ws2 ws3 Y ws4 @ (rest @ t)" by simp
  from leftmost_in_line [OF l t left]
  have 2: "\<forall>p q. l @ pre = p @ q \<and> q \<noteq> [] \<longrightarrow>
      \<not> starts_with_coordinate_pair (q @ coordinate_pair ws1 X ws2 ws3 Y ws4 @ (rest @ t))"
    by (simp add: s')
  from s have 3: "make_turn_from_line line =
      Inr (if action_letters (rest @ t) \<noteq> []
           then MovementTurn (int_of_digits X) (int_of_digits Y) (action_letters (rest @ t))
           else ShootingTurn (int_of_digits X) (int_of_digits Y))"
    by (simp add: make_turn_cases A')
  from c 1 2 3 show "\<exists>pre ws1 X ws2 ws3 Y ws4 rest.
         whitespace ws1 \<and> number X \<and> whitespace ws2 \<and>
         whitespace ws3 \<and> number Y \<and> whitespace ws4 \<and>
         line = pre @ coordinate_pair ws1 X ws2 ws3 Y ws4 @ rest \<and>
         (\<forall>p q. pre = p @ q \<and> q \<noteq> [] \<longrightarrow>
            \<not> starts_with_coordinate_pair (q @ coordinate_pair ws1 X ws2 ws3 Y ws4 @ rest)) \<and>
         make_turn_from_line line =
           Inr (if action_letters rest \<noteq> []
                then MovementTurn (int_of_digits X) (int_of_digits Y) (action_letters rest)
                else ShootingTurn (int_of_digits X) (int_of_digits Y))"
    by blast
qed

theorem parser_failure_witness:
  "make_turn_from_line ''1,2)LM'' = Inl AttributeError \<and>
   contains_coordinate_pair ''ab(1,2)X'' \<and>
   make_turn_from_line ''ab(1,2)X'' \<noteq> Inl AttributeError \<and>
   make_turn_from_line ''ab(1,2)X'' = Inr (ShootingTurn 1 2)"
proof -
  have "CHR ''('' \<notin> set ''1,2)LM''" by simp
  then have n: "\<not> contains_coordinate_pair ''1,2)LM''"
    using contains_has_paren by blast
  have w: "whitespace []" by (simp add: whitespace_def)
  have d1: "number ''1''" and d2: "number ''2''" by (simp_all add: number_def isdigit_def)
  have "contains_coordinate_pair (''ab'' @ coordinate_pair [] ''1'' [] [] ''2'' [] @ ''X'')"
    by (rule contains_intro [OF w d1 w w d2 w])
  then have c: "contains_coordinate_pair ''ab(1,2)X''"
    by (simp add: coordinate_pair_def)
  from parser_failure [of "''1,2)LM''"] n
  have 1: "make_turn_from_line ''1,2)LM'' = Inl AttributeError" by (rule conjunct1 [THEN mp])
  from parser_failure [of "''ab(1,2)X''"] c
  have "\<exists>pre ws1 X ws2 ws3 Y ws4 rest.
         whitespace ws1 \<and> number X \<and> whitespace ws2 \<and>
         whitespace ws3 \<and> number Y \<and> whitespace ws4 \<and>
         ''ab(1,2)X'' = pre @ coordinate_pair ws1 X ws2 ws3 Y ws4 @ rest \<and>
         (\<forall>p q. pre = p @ q \<and> q \<noteq> [] \<longrightarrow>
            \<not> starts_with_coordinate_pair (q @ coordinate_pair ws1 X ws2 ws3 Y ws4 @ rest)) \<and>
         make_turn_from_line ''ab(1,2)X'' =
           Inr (if action_letters rest \<noteq> []
                then MovementTurn (int_of_digits X) (int_of_digits Y) (action_letters rest)
                else ShootingTurn (int_of_digits X) (int_of_digits Y))"
    by (rule conjunct2 [THEN mp])
  then obtain r where "make_turn_from_line ''ab(1,2)X'' = Inr r" by blast
  then have 2: "make_turn_from_line ''ab(1,2)X'' \<noteq> Inl AttributeError" by simp
  have 3: "make_turn_from_line ''ab(1,2)X'' = Inr (ShootingTurn 1 2)"
    by (simp add: make_turn_from_line_def strip_def isspace_def isdigit_def isaction_def
          match_here_def int_of_digits_def digit_value_def)
  from 1 c 2 3 show ?thesis by (intro conjI)
qed

text \<open>
  The line \<open>(1,2)X\<close> is not a line of the grammar (no part of the grammar admits the
  character \<open>X\<close>), and it parses to a shooting turn.
\<close>

theorem parser_accepts_malformed_line:
  "\<not> turn_grammar ''(1,2)X'' \<and> make_turn_from_line ''(1,2)X'' = Inr (ShootingTurn 1 2)"
proof
  have "\<not> list_all grammar_char ''(1,2)X''"
    by (simp add: grammar_char_def isspace_def isdigit_def isaction_def)
  then show "\<not> turn_grammar ''(1,2)X''" using turn_grammar_chars by blast
  show "make_turn_from_line ''(1,2)X'' = Inr (ShootingTurn 1 2)"
    by (simp add: make_turn_from_line_def strip_def isspace_def isdigit_def isaction_def
          match_here_def int_of_digits_def digit_value_def)
qed

end
